theory Spec2Isabelle
  imports Complex_Main "HOL-Library.Multiset"
begin

section \<open>The word-level n-gram lyric generator (lyric\_generation.py)\<close>

text \<open>
  The Python module trains a word n-gram model (\<open>train_lm\<close>) and samples text from it
  (\<open>generate_text\<close>). Python strings are modelled as \<open>string\<close>; all characters that the
  code inspects (space, tab, newline, brackets, parentheses, the tilde) are ASCII.
  Exceptions are values of type \<open>error\<close>; a function that can raise returns
  \<open>error + 'a\<close>. Python's float frequencies \<open>cnt/total\<close> are modelled as exact
  rationals.
\<close>

subsection \<open>Data model\<close>

datatype error = IndexError | ValueError | ZeroDivisionError

text \<open>The argument \<open>lyrics\<close> / \<open>original\<close>: a \<open>str\<close> or a \<open>List[str]\<close>.\<close>

datatype corpus = Single string | Docs "string list"

text \<open>
  After tokenisation every element of \<open>tokens\<close> is either a tuple of words (one song of
  a list corpus) or a plain string (one word of a single-string corpus); the loop body
  branches on \<open>type(item) == tuple\<close>.
\<close>

datatype item = Tuple "string list" | Str string

text \<open>
  A \<open>collections.Counter\<close> and the \<open>defaultdict(Counter)\<close> are dictionaries, which keep
  their keys in insertion order; \<open>most_common\<close> depends on that order, so both are
  association lists with distinct keys, in insertion order.
\<close>

type_synonym counter = "(string \<times> nat) list"
type_synonym counts = "(string \<times> counter) list"
type_synonym lm = "(string \<times> (string \<times> rat) list) list"

text \<open>
  \<open>np.random.choice(word, p=prob)\<close> is not code of this module: it is a parameter, a
  function from the candidate words and their weights to the drawn word (or to the
  error numpy raises).
\<close>

type_synonym chooser = "string list \<Rightarrow> rat list \<Rightarrow> error + string"

subsection \<open>Python string primitives\<close>

text \<open>
  \<open>s.split(" ")\<close> and \<open>re.split(' |\n|\t', s)\<close>: cut at every single separator
  character; adjacent separators give empty fields, and the empty string gives one
  empty field.
\<close>

fun split_on :: "(char \<Rightarrow> bool) \<Rightarrow> string \<Rightarrow> string list" where
  "split_on p [] = [[]]"
| "split_on p (c # cs) =
     (if p c then [] # split_on p cs
      else (case split_on p cs of [] \<Rightarrow> [[c]] | w # ws \<Rightarrow> (c # w) # ws))"

definition is_space :: "char \<Rightarrow> bool" where
  "is_space c = (c = CHR '' '')"

definition is_sep :: "char \<Rightarrow> bool" where
  "is_sep c = (c = CHR '' '' \<or> c = CHR ''\<newline>'' \<or> c = CHR 0x09)"

definition re_split :: "string \<Rightarrow> string list" where
  "re_split s = split_on is_sep s"

text \<open>\<open>sep.join(xs)\<close>.\<close>

fun join :: "string \<Rightarrow> string list \<Rightarrow> string" where
  "join sep [] = []"
| "join sep [x] = x"
| "join sep (x # y # ys) = x @ sep @ join sep (y # ys)"

text \<open>\<open>a in b\<close> on strings: \<open>a\<close> occurs in \<open>b\<close> as a contiguous substring.\<close>

fun starts_with :: "string \<Rightarrow> string \<Rightarrow> bool" where
  "starts_with [] b = True"
| "starts_with (x # xs) [] = False"
| "starts_with (x # xs) (y # ys) = (x = y \<and> starts_with xs ys)"

fun str_in :: "string \<Rightarrow> string \<Rightarrow> bool" where
  "str_in a [] = (a = [])"
| "str_in a (c # cs) = (starts_with a (c # cs) \<or> str_in a cs)"

subsection \<open>Training\<close>

text \<open>\<open>"~ " * (n-1)\<close>; a non-positive repeat count gives the empty string.\<close>

definition init_history :: "int \<Rightarrow> string" where
  "init_history n = concat (replicate (nat (n - 1)) ''~ '')"

text \<open>
  The slide of the history window, written out three times in the source (in both
  branches of \<open>train_lm\<close> and in \<open>generate_text\<close>):
  \<^verbatim>\<open>
  if history[-1] == " ":
      history = " ".join(history.split(" ")[1:]) + word
  else:
      history = " ".join(history.split(" ")[1:]) + " " + word
  \<close>
  \<open>history[-1]\<close> raises \<open>IndexError\<close> on the empty string.
\<close>

definition slide_history :: "string \<Rightarrow> string \<Rightarrow> error + string" where
  "slide_history history word =
     (if history = [] then Inl IndexError
      else if last history = CHR '' ''
        then Inr (join '' '' (drop 1 (split_on is_space history)) @ word)
        else Inr (join '' '' (drop 1 (split_on is_space history)) @ '' '' @ word))"

text \<open>\<open>"[" in word or "]" in word or "" == word\<close>.\<close>

definition skipped :: "string \<Rightarrow> bool" where
  "skipped word = (CHR ''['' \<in> set word \<or> CHR '']'' \<in> set word \<or> word = [])"

text \<open>\<open>counter[word] += 1\<close>: a new key goes to the end, an old key keeps its place.\<close>

fun incr :: "counter \<Rightarrow> string \<Rightarrow> counter" where
  "incr [] word = [(word, 1)]"
| "incr ((k, c) # rest) word =
     (if k = word then (k, c + 1) # rest else (k, c) # incr rest word)"

text \<open>\<open>model[history][word] += 1\<close> on the \<open>defaultdict(Counter)\<close>.\<close>

fun bump :: "counts \<Rightarrow> string \<Rightarrow> string \<Rightarrow> counts" where
  "bump [] history word = [(history, incr [] word)]"
| "bump ((k, c) # rest) history word =
     (if k = history then (k, incr c word) # rest else (k, c) # bump rest history word)"

text \<open>The inner loop \<open>for word in item\<close> of the tuple branch; the state is the model and the history.\<close>

fun train_words :: "counts \<times> string \<Rightarrow> string list \<Rightarrow> error + counts \<times> string" where
  "train_words (model, history) [] = Inr (model, history)"
| "train_words (model, history) (word # rest) =
     (if skipped word then train_words (model, history) rest
      else (case slide_history history word of
              Inl e \<Rightarrow> Inl e
            | Inr history' \<Rightarrow> train_words (bump model history word, history') rest))"

text \<open>
  One iteration of \<open>for item in tokens\<close>. The history is set to the initial history at
  the top of every iteration, for a tuple and for a plain string alike.
\<close>

fun train_item :: "counts \<Rightarrow> int \<Rightarrow> item \<Rightarrow> error + counts" where
  "train_item model n (Tuple ws) =
     (case train_words (model, init_history n) ws of
        Inl e \<Rightarrow> Inl e
      | Inr (model', history') \<Rightarrow> Inr model')"
| "train_item model n (Str w) =
     (if skipped w then Inr model
      else (case slide_history (init_history n) w of
              Inl e \<Rightarrow> Inl e
            | Inr history' \<Rightarrow> Inr (bump model (init_history n) w)))"

fun train_loop :: "counts \<Rightarrow> int \<Rightarrow> item list \<Rightarrow> error + counts" where
  "train_loop model n [] = Inr model"
| "train_loop model n (it # rest) =
     (case train_item model n it of
        Inl e \<Rightarrow> Inl e
      | Inr model' \<Rightarrow> train_loop model' n rest)"

definition tokenize :: "corpus \<Rightarrow> item list" where
  "tokenize lyrics =
     (case lyrics of
        Docs items \<Rightarrow> map (\<lambda>it. Tuple (re_split it)) items
      | Single s \<Rightarrow> map Str (re_split s))"

text \<open>
  \<open>Counter.most_common()\<close> is \<open>sorted(items, key=itemgetter(1), reverse=True)\<close>: a stable
  sort by descending count.
\<close>

definition most_common :: "counter \<Rightarrow> counter" where
  "most_common c = sort_key (\<lambda>wc. - int (snd wc)) c"

definition total_count :: "counter \<Rightarrow> nat" where
  "total_count c = sum_list (map snd c)"

text \<open>\<open>cnt/total\<close> raises \<open>ZeroDivisionError\<close> when the total is zero and there is an entry to divide.\<close>

definition normalize :: "counter \<Rightarrow> error + (string \<times> rat) list" where
  "normalize c =
     (if c \<noteq> [] \<and> total_count c = 0 then Inl ZeroDivisionError
      else Inr (map (\<lambda>wc. (fst wc, of_nat (snd wc) / of_nat (total_count c))) (most_common c)))"

fun normalize_all :: "counts \<Rightarrow> error + lm" where
  "normalize_all [] = Inr []"
| "normalize_all ((history, c) # rest) =
     (case normalize c of
        Inl e \<Rightarrow> Inl e
      | Inr d \<Rightarrow> (case normalize_all rest of
                   Inl e \<Rightarrow> Inl e
                 | Inr lm \<Rightarrow> Inr ((history, d) # lm)))"

definition train_counts :: "corpus \<Rightarrow> int \<Rightarrow> error + counts" where
  "train_counts lyrics n = train_loop [] n (tokenize lyrics)"

definition train_lm :: "corpus \<Rightarrow> int \<Rightarrow> error + lm" where
  "train_lm lyrics n =
     (case train_counts lyrics n of
        Inl e \<Rightarrow> Inl e
      | Inr model \<Rightarrow> normalize_all model)"

subsection \<open>Generation\<close>

text \<open>
  \<open>unzip\<close> of an empty list is the empty tuple, and unpacking it into \<open>word, prob\<close>
  raises \<open>ValueError\<close>.
\<close>

definition generate_word :: "chooser \<Rightarrow> lm \<Rightarrow> string \<Rightarrow> error + string" where
  "generate_word choice lm history =
     (case map_of lm history of
        None \<Rightarrow> Inr ''~''
      | Some d \<Rightarrow> (if d = [] then Inl ValueError else choice (map fst d) (map snd d)))"

text \<open>
  The loop \<open>for i in range(n_words)\<close>, from iteration \<open>i\<close> with \<open>k\<close> iterations left;
  the state is the history and the buffer \<open>text\<close>. The draw of iteration \<open>i\<close> is
  \<open>choice i\<close>.
\<close>

fun gen_loop :: "(nat \<Rightarrow> chooser) \<Rightarrow> lm \<Rightarrow> nat \<Rightarrow> nat \<Rightarrow> string \<times> string list
                  \<Rightarrow> error + string \<times> string list" where
  "gen_loop choice lm i 0 (history, text) = Inr (history, text)"
| "gen_loop choice lm i (Suc k) (history, text) =
     (case generate_word (choice i) lm history of
        Inl e \<Rightarrow> Inl e
      | Inr word \<Rightarrow>
          (case slide_history history word of
             Inl e \<Rightarrow> Inl e
           | Inr history' \<Rightarrow> gen_loop choice lm (Suc i) k (history', text @ [word])))"

text \<open>\<open>if "(" in text[i]: text[i] = text[i][1:]\<close> and \<open>if ")" in text[i]: text[i] = text[i][:-1]\<close>.\<close>

definition strip_open :: "string \<Rightarrow> string" where
  "strip_open w = (if CHR ''('' \<in> set w then drop 1 w else w)"

definition strip_close :: "string \<Rightarrow> string" where
  "strip_close w = (if CHR '')'' \<in> set w then butlast w else w)"

text \<open>The two loops \<open>for i in range(len(text))\<close>, updating the buffer in place.\<close>

definition strip_open_pass :: "string list \<Rightarrow> string list" where
  "strip_open_pass text = fold (\<lambda>i t. t[i := strip_open (t ! i)]) [0..<length text] text"

definition strip_close_pass :: "string list \<Rightarrow> string list" where
  "strip_close_pass text = fold (\<lambda>i t. t[i := strip_close (t ! i)]) [0..<length text] text"

text \<open>
  Line-break recovery for one word. For a list corpus the inner loop \<open>for item in
  original\<close> re-reads \<open>text[i]\<close> at every item; \<open>and\<close> evaluates \<open>text[i][0]\<close> only when
  the substring test holds, and \<open>text[i][0]\<close> raises \<open>IndexError\<close> on the empty string.
\<close>

fun mark_in_docs :: "string list \<Rightarrow> string \<Rightarrow> error + string" where
  "mark_in_docs [] w = Inr w"
| "mark_in_docs (it # rest) w =
     (if str_in (CHR ''\<newline>'' # w) it
      then (case w of
              [] \<Rightarrow> Inl IndexError
            | c # cs \<Rightarrow> if c \<noteq> CHR ''\<newline>'' then mark_in_docs rest (CHR ''\<newline>'' # w)
                       else mark_in_docs rest w)
      else mark_in_docs rest w)"

definition mark_word :: "corpus \<Rightarrow> string \<Rightarrow> error + string" where
  "mark_word original w =
     (case original of
        Docs items \<Rightarrow> mark_in_docs items w
      | Single s \<Rightarrow> Inr (if str_in (CHR ''\<newline>'' # w) s then CHR ''\<newline>'' # w else w))"

text \<open>The loop \<open>for i in range(1, len(text))\<close> over the given indices.\<close>

fun linebreak_loop :: "corpus \<Rightarrow> nat list \<Rightarrow> string list \<Rightarrow> error + string list" where
  "linebreak_loop original [] text = Inr text"
| "linebreak_loop original (i # rest) text =
     (case mark_word original (text ! i) of
        Inl e \<Rightarrow> Inl e
      | Inr w \<Rightarrow> linebreak_loop original rest (text[i := w]))"

definition linebreak_pass :: "corpus \<Rightarrow> string list \<Rightarrow> error + string list" where
  "linebreak_pass original text = linebreak_loop original [1..<length text] text"

definition post_process :: "corpus \<Rightarrow> string list \<Rightarrow> error + string list" where
  "post_process original text = linebreak_pass original (strip_close_pass (strip_open_pass text))"

text \<open>The buffer after the generation loop, before post-processing.\<close>

definition gen_words :: "(nat \<Rightarrow> chooser) \<Rightarrow> lm \<Rightarrow> int \<Rightarrow> int \<Rightarrow> error + string list" where
  "gen_words choice lm n n_words =
     (case gen_loop choice lm 0 (nat n_words) (init_history n, []) of
        Inl e \<Rightarrow> Inl e
      | Inr (history, text) \<Rightarrow> Inr text)"

text \<open>
  \<open>generate_text\<close> ends with \<open>return print(" ".join(text))\<close>: the joined text and a
  newline go to standard output, and the value returned is what \<open>print\<close> returns,
  \<open>None\<close>. The result records both.
\<close>

record outcome =
  printed :: string
  returned :: "string option"

definition generate_text :: "(nat \<Rightarrow> chooser) \<Rightarrow> corpus \<Rightarrow> lm \<Rightarrow> int \<Rightarrow> int \<Rightarrow> error + outcome" where
  "generate_text choice original lm n n_words =
     (case gen_words choice lm n n_words of
        Inl e \<Rightarrow> Inl e
      | Inr text \<Rightarrow>
          (case post_process original text of
             Inl e \<Rightarrow> Inl e
           | Inr text' \<Rightarrow> Inr \<lparr>printed = join '' '' text' @ [CHR ''\<newline>''], returned = None\<rparr>))"

subsection \<open>Notions used to state the properties\<close>

text \<open>
  A deterministic stand-in for the random draw, used to run the generator on concrete
  inputs: it returns the first candidate.
\<close>

definition pick_first :: "nat \<Rightarrow> chooser" where
  "pick_first i ws ps = (case ws of [] \<Rightarrow> Inl ValueError | w # rest \<Rightarrow> Inr w)"

text \<open>The tokens of a document that training does not skip.\<close>

definition unskipped :: "string list \<Rightarrow> string list" where
  "unskipped toks = filter (\<lambda>w. \<not> skipped w) toks"

text \<open>
  A history of order \<open>n\<close> in the sense of the specification: exactly \<open>n - 1\<close>
  non-empty words separated by single spaces, with no leading or trailing space. Cutting
  such a string at its spaces gives exactly \<open>n - 1\<close> fields, none of them empty.
\<close>

definition history_ok :: "int \<Rightarrow> string \<Rightarrow> bool" where
  "history_ok n h =
     (length (split_on is_space h) = nat (n - 1) \<and> [] \<notin> set (split_on is_space h))"

text \<open>The last \<open>n - 1\<close> words of the placeholders followed by the words \<open>ws\<close>.\<close>

definition window :: "int \<Rightarrow> string list \<Rightarrow> string list" where
  "window n ws = drop (length ws) (replicate (nat (n - 1)) ''~'' @ ws)"

text \<open>The distinct elements of a list, in the order of their first occurrence.\<close>

fun first_seen :: "'a list \<Rightarrow> 'a list" where
  "first_seen [] = []"
| "first_seen (x # xs) = x # removeAll x (first_seen xs)"

text \<open>
  The observations of a training run: the pairs (history, word) at which the statement
  \<open>model[history][word] += 1\<close> is executed, in execution order.
\<close>

fun seen_words :: "string \<Rightarrow> string list \<Rightarrow> (string \<times> string) list" where
  "seen_words history [] = []"
| "seen_words history (word # rest) =
     (if skipped word then seen_words history rest
      else (case slide_history history word of
              Inl e \<Rightarrow> [(history, word)]
            | Inr history' \<Rightarrow> (history, word) # seen_words history' rest))"

fun seen_item :: "int \<Rightarrow> item \<Rightarrow> (string \<times> string) list" where
  "seen_item n (Tuple ws) = seen_words (init_history n) ws"
| "seen_item n (Str w) = (if skipped w then [] else [(init_history n, w)])"

definition seen :: "corpus \<Rightarrow> int \<Rightarrow> (string \<times> string) list" where
  "seen lyrics n = concat (map (seen_item n) (tokenize lyrics))"

text \<open>The words observed after the history \<open>h\<close>, in order, with repetitions.\<close>

definition after :: "string \<Rightarrow> (string \<times> string) list \<Rightarrow> string list" where
  "after h evs = map snd (filter (\<lambda>e. fst e = h) evs)"

text \<open>The corpus has a token that training does not skip.\<close>

definition has_token :: "corpus \<Rightarrow> bool" where
  "has_token lyrics =
     (case lyrics of
        Single s \<Rightarrow> unskipped (re_split s) \<noteq> []
      | Docs items \<Rightarrow> concat (map (\<lambda>it. unskipped (re_split it)) items) \<noteq> [])"

text \<open>
  The fields of a well-formed history of order \<open>n\<close>: \<open>n - 1\<close> non-empty strings
  without spaces.
\<close>

definition fields_ok :: "int \<Rightarrow> string list \<Rightarrow> bool" where
  "fields_ok n fs = (length fs = nat (n - 1) \<and> (\<forall>f\<in>set fs. f \<noteq> [] \<and> CHR '' '' \<notin> set f))"

section \<open>Properties\<close>

subsection \<open>String primitives\<close>

lemma split_on_not_Nil: "split_on p s \<noteq> []"
  by (induction s) (auto split: list.splits)

lemma split_on_no_sep: "\<forall>c\<in>set w. \<not> p c \<Longrightarrow> split_on p w = [w]"
  by (induction w) auto

lemma split_on_append_sep:
  "\<forall>c\<in>set w. \<not> p c \<Longrightarrow> p s \<Longrightarrow> split_on p (w @ s # rest) = w # split_on p rest"
  by (induction w) auto

lemma join_Cons: "ws \<noteq> [] \<Longrightarrow> join sep (w # ws) = w @ sep @ join sep ws"
  by (cases ws) auto

lemma join_snoc: "ws \<noteq> [] \<Longrightarrow> join sep (ws @ [w]) = join sep ws @ sep @ w"
  by (induction sep ws rule: join.induct) auto

lemma join_snoc_empty: "join sep (ws @ [[]]) @ w = join sep (ws @ [w])"
  by (induction sep ws rule: join.induct) auto

lemma split_join:
  "fs \<noteq> [] \<Longrightarrow> \<forall>f\<in>set fs. \<forall>c\<in>set f. \<not> p c \<Longrightarrow> p s \<Longrightarrow> split_on p (join [s] fs) = fs"
proof (induction fs)
  case Nil
  then show ?case by simp
next
  case (Cons f fs)
  show ?case
  proof (cases "fs = []")
    case True
    with Cons.prems show ?thesis by (simp add: split_on_no_sep)
  next
    case False
    with Cons show ?thesis by (simp add: join_Cons split_on_append_sep)
  qed
qed

lemma set_join: "set (join sep ws) \<subseteq> set sep \<union> \<Union> (set ` set ws)"
  by (induction sep ws rule: join.induct) auto

lemma set_split_on: "\<Union> (set ` set (split_on p s)) \<subseteq> set s"
  by (induction s) (fastforce split: list.splits if_splits)+

lemma join_not_Nil: "ws \<noteq> [] \<Longrightarrow> last ws \<noteq> [] \<Longrightarrow> join sep ws \<noteq> []"
  by (induction sep ws rule: join.induct) auto

lemma last_join: "ws \<noteq> [] \<Longrightarrow> last ws \<noteq> [] \<Longrightarrow> last (join sep ws) = last (last ws)"
  by (induction sep ws rule: join.induct) (auto simp: join_not_Nil)

subsection \<open>The history window\<close>

lemma split_on_fields_no_sep: "\<forall>f\<in>set (split_on p s). \<forall>c\<in>set f. \<not> p c"
  by (induction s) (auto split: list.splits if_splits)

lemma re_split_no_space: "w \<in> set (re_split s) \<Longrightarrow> CHR '' '' \<notin> set w"
  using split_on_fields_no_sep[of is_sep s] by (auto simp: re_split_def is_sep_def)

lemma placeholders_fields:
  "concat (replicate k ''~ '') = join '' '' (replicate k ''~'' @ [[]])"
  by (induction k) (auto simp: join_Cons)

lemma init_history_fields:
  "init_history n = join '' '' (replicate (nat (n - 1)) ''~'' @ [[]])"
  by (simp add: init_history_def placeholders_fields)

lemma split_join_space:
  "fs \<noteq> [] \<Longrightarrow> \<forall>f\<in>set fs. CHR '' '' \<notin> set f \<Longrightarrow> split_on is_space (join '' '' fs) = fs"
  using split_join[of fs is_space "CHR '' ''"] by (auto simp: is_space_def)

lemma slide_last_empty:
  assumes "fs \<noteq> []" "\<forall>f\<in>set fs. CHR '' '' \<notin> set f"
  shows "slide_history (join '' '' (fs @ [[]])) w = Inr (join '' '' (tl fs @ [w]))"
proof -
  let ?h = "join '' '' (fs @ [[]])"
  have h: "?h = join '' '' fs @ '' ''" using assms(1) by (simp add: join_snoc)
  have sp: "split_on is_space ?h = fs @ [[]]"
    using assms by (intro split_join_space) auto
  have "drop 1 (fs @ [[]]) = tl fs @ [[]]" using assms(1) by (cases fs) auto
  then show ?thesis
    unfolding slide_history_def sp using h by (simp add: join_snoc_empty)
qed

lemma slide_last_word:
  assumes "fs \<noteq> []" "\<forall>f\<in>set fs. CHR '' '' \<notin> set f" "last fs \<noteq> []" "tl fs \<noteq> []"
  shows "slide_history (join '' '' fs) w = Inr (join '' '' (tl fs @ [w]))"
proof -
  let ?h = "join '' '' fs"
  have ne: "?h \<noteq> []" using assms by (simp add: join_not_Nil)
  have "last ?h = last (last fs)" using assms by (simp add: last_join)
  moreover have "last (last fs) \<in> set (last fs)" using assms(3) by simp
  moreover have "last fs \<in> set fs" using assms(1) by simp
  ultimately have nsp: "last ?h \<noteq> CHR '' ''" using assms(2) by metis
  have sp: "split_on is_space ?h = fs"
    using assms by (intro split_join_space) auto
  show ?thesis
    unfolding slide_history_def sp using ne nsp assms(4) by (simp add: drop_Suc join_snoc)
qed

lemma unskipped_Nil [simp]: "unskipped [] = []"
  by (simp add: unskipped_def)

lemma unskipped_Cons [simp]:
  "unskipped (w # ws) = (if skipped w then unskipped ws else w # unskipped ws)"
  by (simp add: unskipped_def)

lemma join_Cons_Cons: "join sep ((a # w) # ws) = a # join sep (w # ws)"
  by (cases ws) auto

lemma join_split: "join '' '' (split_on is_space s) = s"
  by (induction s) (auto split: list.splits simp: split_on_not_Nil join_Cons join_Cons_Cons is_space_def)

lemma history_ok_join: "2 \<le> n \<Longrightarrow> fields_ok n fs \<Longrightarrow> history_ok n (join '' '' fs)"
  unfolding history_ok_def fields_ok_def
  by (subst split_join_space; auto)+

lemma history_ok_fields: "history_ok n h \<Longrightarrow> fields_ok n (split_on is_space h)"
  using split_on_fields_no_sep[of is_space h]
  unfolding history_ok_def fields_ok_def by (auto simp: is_space_def)

lemma slide_fields:
  assumes "3 \<le> n" "fields_ok n fs"
  shows "slide_history (join '' '' fs) w = Inr (join '' '' (tl fs @ [w]))"
proof -
  have len: "length fs \<ge> 2" using assms by (auto simp: fields_ok_def)
  then have "fs \<noteq> []" "tl fs \<noteq> []" by (cases fs; auto)+
  moreover have "last fs \<noteq> []" using assms(2) \<open>fs \<noteq> []\<close> by (auto simp: fields_ok_def)
  ultimately show ?thesis using assms(2) by (intro slide_last_word) (auto simp: fields_ok_def)
qed

lemma fields_ok_slide:
  "fields_ok n fs \<Longrightarrow> fs \<noteq> [] \<Longrightarrow> w \<noteq> [] \<Longrightarrow> CHR '' '' \<notin> set w \<Longrightarrow> fields_ok n (tl fs @ [w])"
  by (cases fs) (auto simp: fields_ok_def)

lemma slide_first:
  assumes "2 \<le> n"
  shows "slide_history (init_history n) w = Inr (join '' '' (replicate (nat (n - 2)) ''~'' @ [w]))"
proof -
  have "nat (n - 1) = Suc (nat (n - 2))" using assms by simp
  then have "tl (replicate (nat (n - 1)) ''~'') = replicate (nat (n - 2)) ''~''" by simp
  moreover have "replicate (nat (n - 1)) ''~'' \<noteq> []" using assms by simp
  ultimately show ?thesis
    using slide_last_empty[of "replicate (nat (n - 1)) ''~''" w]
    by (simp add: init_history_fields)
qed

lemma fields_ok_first:
  "2 \<le> n \<Longrightarrow> w \<noteq> [] \<Longrightarrow> CHR '' '' \<notin> set w \<Longrightarrow> fields_ok n (replicate (nat (n - 2)) ''~'' @ [w])"
  by (auto simp: fields_ok_def)

lemma drop_slide: "fs \<noteq> [] \<Longrightarrow> drop (length ws) ((tl fs @ [w]) @ ws) = drop (Suc (length ws)) (fs @ w # ws)"
  by (cases fs) auto

lemma train_words_fields:
  assumes "3 \<le> n"
  shows "fields_ok n fs \<Longrightarrow> \<forall>w\<in>set toks. CHR '' '' \<notin> set w \<Longrightarrow>
     \<exists>m'. train_words (m, join '' '' fs) toks =
           Inr (m', join '' '' (drop (length (unskipped toks)) (fs @ unskipped toks)))
         \<and> fields_ok n (drop (length (unskipped toks)) (fs @ unskipped toks))"
proof (induction toks arbitrary: m fs)
  case Nil
  then show ?case by simp
next
  case (Cons w toks)
  show ?case
  proof (cases "skipped w")
    case True
    then show ?thesis using Cons by simp
  next
    case False
    have ne: "fs \<noteq> []" using assms Cons.prems(1) by (auto simp: fields_ok_def)
    have w: "w \<noteq> []" "CHR '' '' \<notin> set w" using False Cons.prems(2) by (auto simp: skipped_def)
    have ok': "fields_ok n (tl fs @ [w])" using Cons.prems(1) ne w by (rule fields_ok_slide)
    from Cons.IH[OF ok', of "bump m (join '' '' fs) w"] Cons.prems(2)
    obtain m' where "train_words (bump m (join '' '' fs) w, join '' '' (tl fs @ [w])) toks =
           Inr (m', join '' '' (drop (length (unskipped toks)) ((tl fs @ [w]) @ unskipped toks)))"
      and "fields_ok n (drop (length (unskipped toks)) ((tl fs @ [w]) @ unskipped toks))" by auto
    then show ?thesis
      using False slide_fields[OF assms Cons.prems(1), of w] drop_slide[OF ne, of "unskipped toks" w]
      by simp
  qed
qed

lemma window_first: "2 \<le> n \<Longrightarrow> 
   drop (length ws) ((replicate (nat (n - 2)) ''~'' @ [w]) @ ws) = window n (w # ws)"
proof -
  assume "2 \<le> n"
  then have "nat (n - 1) = Suc (nat (n - 2))" by simp
  then show ?thesis by (simp add: window_def)
qed

lemma train_words_window:
  assumes "3 \<le> n" "\<forall>w\<in>set toks. CHR '' '' \<notin> set w"
  shows "\<exists>m'. train_words (m, init_history n) toks =
           Inr (m', if unskipped toks = [] then init_history n else join '' '' (window n (unskipped toks)))
         \<and> (unskipped toks \<noteq> [] \<longrightarrow> fields_ok n (window n (unskipped toks)))"
  using assms(2)
proof (induction toks arbitrary: m)
  case Nil
  then show ?case by simp
next
  case (Cons w toks)
  show ?case
  proof (cases "skipped w")
    case True
    have "\<forall>w\<in>set toks. CHR '' '' \<notin> set w" using Cons.prems by simp
    from Cons.IH[OF this, of m] True show ?thesis
      by (cases "unskipped toks = []") simp_all
  next
    case False
    have n2: "2 \<le> n" using assms(1) by simp
    have w: "w \<noteq> []" "CHR '' '' \<notin> set w" using False Cons.prems by (auto simp: skipped_def)
    have ok': "fields_ok n (replicate (nat (n - 2)) ''~'' @ [w])" using n2 w by (rule fields_ok_first)
    from train_words_fields[OF assms(1) ok', of toks "bump m (init_history n) w"] Cons.prems
    obtain m' where "train_words (bump m (init_history n) w, join '' '' (replicate (nat (n - 2)) ''~'' @ [w])) toks =
           Inr (m', join '' '' (drop (length (unskipped toks)) ((replicate (nat (n - 2)) ''~'' @ [w]) @ unskipped toks)))"
       and "fields_ok n (drop (length (unskipped toks)) ((replicate (nat (n - 2)) ''~'' @ [w]) @ unskipped toks))"
      by auto
    then show ?thesis
      using False slide_first[OF n2, of w] window_first[OF n2, of "unskipped toks" w]
      by simp
  qed
qed

lemma gen_loop_text:
  "gen_loop choice lm i k (h, buf) = Inr (h', buf') \<Longrightarrow>
     \<exists>ws. buf' = buf @ ws \<and> length ws = k"
proof (induction k arbitrary: i h buf)
  case 0
  then show ?case by simp
next
  case (Suc k)
  from Suc.prems obtain word h2 where
    "gen_loop choice lm (Suc i) k (h2, buf @ [word]) = Inr (h', buf')"
    by (auto split: sum.splits)
  from Suc.IH[OF this] obtain ws where "buf' = (buf @ [word]) @ ws" "length ws = k" by blast
  then have "buf' = buf @ (word # ws) \<and> length (word # ws) = Suc k" by simp
  then show ?case by blast
qed

lemma gen_loop_fields:
  assumes "3 \<le> n"
  shows "gen_loop choice lm i k (join '' '' fs, buf) = Inr (h', buf @ ws) \<Longrightarrow>
     fields_ok n fs \<Longrightarrow> \<forall>w\<in>set ws. w \<noteq> [] \<and> CHR '' '' \<notin> set w \<Longrightarrow>
     h' = join '' '' (drop (length ws) (fs @ ws)) \<and> fields_ok n (drop (length ws) (fs @ ws))"
proof (induction k arbitrary: i fs buf ws)
  case 0
  then show ?case by simp
next
  case (Suc k)
  have ne: "fs \<noteq> []" using assms Suc.prems(2) by (auto simp: fields_ok_def)
  from Suc.prems(1) obtain word h2 where
    sl: "slide_history (join '' '' fs) word = Inr h2" and
    rest: "gen_loop choice lm (Suc i) k (h2, buf @ [word]) = Inr (h', buf @ ws)"
    by (auto split: sum.splits)
  from gen_loop_text[OF rest] obtain ws' where ws': "buf @ ws = (buf @ [word]) @ ws'" by blast
  then have ws: "ws = word # ws'" by simp
  have h2: "h2 = join '' '' (tl fs @ [word])"
    using sl slide_fields[OF assms Suc.prems(2), of word] by simp
  have w: "word \<noteq> []" "CHR '' '' \<notin> set word" using Suc.prems(3) ws by auto
  have ok': "fields_ok n (tl fs @ [word])" using Suc.prems(2) ne w by (rule fields_ok_slide)
  have "gen_loop choice lm (Suc i) k (join '' '' (tl fs @ [word]), buf @ [word]) = Inr (h', (buf @ [word]) @ ws')"
    using rest h2 ws' by simp
  from Suc.IH[OF this ok'] Suc.prems(3) ws
  show ?case using drop_slide[OF ne, of ws' word] by simp
qed

lemma gen_loop_window:
  assumes "3 \<le> n"
    and "gen_loop choice lm i k (init_history n, []) = Inr (h', buf)"
    and "buf \<noteq> []" and "\<forall>w\<in>set buf. w \<noteq> [] \<and> CHR '' '' \<notin> set w"
  shows "h' = join '' '' (window n buf) \<and> fields_ok n (window n buf)"
proof (cases k)
  case 0
  then show ?thesis using assms by simp
next
  case (Suc j)
  have n2: "2 \<le> n" using assms(1) by simp
  from assms(2) Suc obtain word h2 where
    sl: "slide_history (init_history n) word = Inr h2" and
    rest: "gen_loop choice lm (Suc i) j (h2, [] @ [word]) = Inr (h', buf)"
    by (auto split: sum.splits)
  from gen_loop_text[OF rest] obtain ws' where ws': "buf = ([] @ [word]) @ ws'" by blast
  have h2: "h2 = join '' '' (replicate (nat (n - 2)) ''~'' @ [word])"
    using sl slide_first[OF n2, of word] by simp
  have w: "word \<noteq> []" "CHR '' '' \<notin> set word" using assms(4) ws' by auto
  have ok': "fields_ok n (replicate (nat (n - 2)) ''~'' @ [word])" using n2 w by (rule fields_ok_first)
  have "gen_loop choice lm (Suc i) j (join '' '' (replicate (nat (n - 2)) ''~'' @ [word]), [word]) = Inr (h', [word] @ ws')"
    using rest h2 ws' by simp
  from gen_loop_fields[OF assms(1) this ok'] assms(4) ws'
  show ?thesis using window_first[OF n2, of ws' word] by simp
qed

lemma slide_history_ok:
  assumes "3 \<le> n" "history_ok n h" "w \<noteq> []" "CHR '' '' \<notin> set w"
  shows "slide_history h w = Inr (join '' '' (drop 1 (split_on is_space h) @ [w]))
    \<and> history_ok n (join '' '' (drop 1 (split_on is_space h) @ [w]))"
proof -
  let ?fs = "split_on is_space h"
  have ok: "fields_ok n ?fs" using assms(2) by (rule history_ok_fields)
  have ne: "?fs \<noteq> []" by (rule split_on_not_Nil)
  have "slide_history (join '' '' ?fs) w = Inr (join '' '' (tl ?fs @ [w]))"
    using assms(1) ok by (rule slide_fields)
  moreover have "fields_ok n (tl ?fs @ [w])" using ok ne assms(3,4) by (rule fields_ok_slide)
  ultimately show ?thesis using assms(1) history_ok_join[of n "tl ?fs @ [w]"]
    by (simp add: join_split drop_Suc)
qed

subsection \<open>Claim C2: the history window\<close>

text \<open>
  Claim C2, as amended. For every order \<open>n \<ge> 3\<close>:
  \<^item> the slide maps a well-formed history (exactly \<open>n - 1\<close> non-empty words joined by
    single spaces) and a non-empty word without spaces to the well-formed history that
    drops the oldest word and appends the new one;
  \<^item> in training, after any number \<open>j\<close> of tokens of a document the history is the initial
    history \<open>"~ " * (n-1)\<close> (which ends with a space) as long as every token was skipped,
    and afterwards the space-joined last \<open>n - 1\<close> words of the placeholders followed by the
    counted tokens, which is well-formed;
  \<^item> in generation, after any number \<open>k \<ge> 1\<close> of steps whose words are non-empty and free
    of spaces, the history is the space-joined last \<open>n - 1\<close> words of the placeholders
    followed by the generated words, which is well-formed.
\<close>

theorem history_window_invariant:
  assumes "3 \<le> n"
  shows "(history_ok n h \<and> w \<noteq> [] \<and> CHR '' '' \<notin> set w \<longrightarrow>
            slide_history h w = Inr (join '' '' (drop 1 (split_on is_space h) @ [w])) \<and>
            history_ok n (join '' '' (drop 1 (split_on is_space h) @ [w])))
       \<and> (\<exists>m'. train_words (m, init_history n) (take j (re_split doc)) =
               Inr (m', if unskipped (take j (re_split doc)) = [] then init_history n
                        else join '' '' (window n (unskipped (take j (re_split doc)))))
            \<and> (unskipped (take j (re_split doc)) \<noteq> [] \<longrightarrow>
                 history_ok n (join '' '' (window n (unskipped (take j (re_split doc)))))))
       \<and> (gen_loop choice lm 0 k (init_history n, []) = Inr (h', buf) \<and> buf \<noteq> []
            \<and> (\<forall>w\<in>set buf. w \<noteq> [] \<and> CHR '' '' \<notin> set w) \<longrightarrow>
            h' = join '' '' (window n buf) \<and> history_ok n h')"
proof -
  have n2: "2 \<le> n" using assms by simp
  have a: "history_ok n h \<and> w \<noteq> [] \<and> CHR '' '' \<notin> set w \<longrightarrow>
            slide_history h w = Inr (join '' '' (drop 1 (split_on is_space h) @ [w])) \<and>
            history_ok n (join '' '' (drop 1 (split_on is_space h) @ [w]))"
    using slide_history_ok[OF assms] by blast
  have sf: "\<forall>w\<in>set (take j (re_split doc)). CHR '' '' \<notin> set w"
    using re_split_no_space by (meson in_set_takeD)
  have b: "\<exists>m'. train_words (m, init_history n) (take j (re_split doc)) =
               Inr (m', if unskipped (take j (re_split doc)) = [] then init_history n
                        else join '' '' (window n (unskipped (take j (re_split doc)))))
            \<and> (unskipped (take j (re_split doc)) \<noteq> [] \<longrightarrow>
                 history_ok n (join '' '' (window n (unskipped (take j (re_split doc))))))"
    using train_words_window[OF assms sf, of m] history_ok_join[OF n2] by blast
  have c: "gen_loop choice lm 0 k (init_history n, []) = Inr (h', buf) \<and> buf \<noteq> []
            \<and> (\<forall>w\<in>set buf. w \<noteq> [] \<and> CHR '' '' \<notin> set w) \<longrightarrow>
            h' = join '' '' (window n buf) \<and> history_ok n h'"
    using gen_loop_window[OF assms, of choice lm 0 k h' buf] history_ok_join[OF n2] by blast
  from a b c show ?thesis by blast
qed

text \<open>The invariant at order 3, on concrete histories, a concrete document and the empty model.\<close>

theorem history_window_invariant_witness:
  "(3::int) \<le> 3 \<and> history_ok 3 ''a b'' \<and> slide_history ''a b'' ''c'' = Inr ''b c'' \<and> history_ok 3 ''b c''
   \<and> (\<exists>m'. train_words ([], init_history 3) (take 3 (re_split ''x y z'')) = Inr (m', ''y z''))
   \<and> history_ok 3 ''y z''
   \<and> gen_loop pick_first [] 0 2 (init_history 3, []) = Inr (''~ ~'', [''~'', ''~''])
   \<and> history_ok 3 ''~ ~''"
  using history_window_invariant[where n = 3 and h = "''a b''" and w = "''c''" and m = "[]"
      and j = 3 and doc = "''x y z''" and choice = pick_first and lm = "[]" and k = 2
      and h' = "''~ ~''" and buf = "[''~'', ''~'']"]
  by (simp add: history_ok_def is_space_def re_split_def is_sep_def window_def skipped_def
      init_history_def slide_history_def generate_word_def numeral_2_eq_2)

text \<open>
  Claim C2 as stated fails at the first step, for training and generation alike: the
  initial history of order 3 is \<open>"~ ~ "\<close>, with a trailing space, and it is the key
  under which the first word of a document is counted.
\<close>

theorem history_window_counterexample:
  "init_history 3 = ''~ ~ '' \<and> \<not> history_ok 3 (init_history 3)
   \<and> train_lm (Docs [''la'']) 3 = Inr [(''~ ~ '', [(''la'', 1)])]"
  by (simp add: init_history_def history_ok_def is_space_def numeral_2_eq_2 train_lm_def train_counts_def
      tokenize_def re_split_def is_sep_def skipped_def slide_history_def normalize_def total_count_def most_common_def)

subsection \<open>Running the model on concrete inputs\<close>

lemmas run_defs = train_lm_def train_counts_def tokenize_def re_split_def is_sep_def skipped_def
  slide_history_def init_history_def is_space_def normalize_def total_count_def most_common_def
  numeral_2_eq_2

subsection \<open>Training with an empty initial history\<close>

lemma init_history_low: "n \<le> 1 \<Longrightarrow> init_history n = []"
  by (simp add: init_history_def)

lemma train_words_empty_history:
  "train_words (m, []) toks = (if unskipped toks = [] then Inr (m, []) else Inl IndexError)"
  by (induction toks) (auto simp: slide_history_def)

lemma train_loop_strs_low:
  "n \<le> 1 \<Longrightarrow> train_loop m n (map Str toks) = (if unskipped toks = [] then Inr m else Inl IndexError)"
  by (induction toks) (auto simp: slide_history_def init_history_low)

lemma train_loop_tuples_low:
  "n \<le> 1 \<Longrightarrow> train_loop m n (map (\<lambda>it. Tuple (re_split it)) items) =
     (if concat (map (\<lambda>it. unskipped (re_split it)) items) = [] then Inr m else Inl IndexError)"
  by (induction items) (auto simp: init_history_low train_words_empty_history)

subsection \<open>Passes\<close>

lemma fold_update_prefix:
  "k \<le> length xs \<Longrightarrow>
     fold (\<lambda>i t. t[i := f (t ! i)]) [0..<k] xs = map f (take k xs) @ drop k xs"
proof (induction k)
  case 0
  then show ?case by simp
next
  case (Suc k)
  then have k: "k < length xs" by simp
  have "drop k xs = xs ! k # drop (Suc k) xs" using k by (simp add: Cons_nth_drop_Suc)
  then show ?case using Suc k
    by (simp add: take_Suc_conv_app_nth list_update_append nth_append)
qed

lemma strip_open_pass_map: "strip_open_pass buf = map strip_open buf"
  by (simp add: strip_open_pass_def fold_update_prefix)

lemma strip_close_pass_map: "strip_close_pass buf = map strip_close buf"
  by (simp add: strip_close_pass_def fold_update_prefix)

lemma linebreak_loop_length:
  "linebreak_loop original idx buf = Inr buf' \<Longrightarrow> length buf' = length buf"
  by (induction idx arbitrary: buf) (auto split: sum.splits)

lemma linebreak_pass_length:
  "linebreak_pass original buf = Inr buf' \<Longrightarrow> length buf' = length buf"
  unfolding linebreak_pass_def by (rule linebreak_loop_length)

lemma linebreak_loop_fixed:
  "\<forall>i\<in>set idx. mark_word original (buf ! i) = Inr (buf ! i) \<Longrightarrow>
     linebreak_loop original idx buf = Inr buf"
  by (induction idx) auto

subsection \<open>Generation never stalls on a non-empty history\<close>

lemma slide_history_nonempty:
  "h \<noteq> [] \<Longrightarrow> w \<noteq> [] \<Longrightarrow> \<exists>h2. slide_history h w = Inr h2 \<and> h2 \<noteq> []"
  by (simp add: slide_history_def)

lemma init_history_nonempty: "2 \<le> n \<Longrightarrow> init_history n \<noteq> []"
proof -
  assume "2 \<le> n"
  then have "nat (n - 1) = Suc (nat (n - 2))" by simp
  then show ?thesis by (simp add: init_history_def)
qed

lemma gen_loop_empty_model:
  "h \<noteq> [] \<Longrightarrow> \<exists>h'. gen_loop choice [] i k (h, buf) = Inr (h', buf @ replicate k ''~'')"
proof (induction k arbitrary: i h buf)
  case 0
  then show ?case by simp
next
  case (Suc k)
  from slide_history_nonempty[OF Suc.prems, of "''~''"] obtain h2
    where h2: "slide_history h ''~'' = Inr h2" "h2 \<noteq> []" by auto
  from Suc.IH[OF h2(2), of "Suc i" "buf @ [''~'']"] obtain h'
    where "gen_loop choice [] (Suc i) k (h2, buf @ [''~'']) = Inr (h', (buf @ [''~'']) @ replicate k ''~'')"
    by blast
  then show ?case using h2(1) by (simp add: generate_word_def replicate_app_Cons_same)
qed

lemma gen_loop_total:
  assumes draws: "\<And>h d i. (h, d) \<in> set lm \<Longrightarrow>
            d \<noteq> [] \<and> (\<exists>w. w \<noteq> [] \<and> choice i (map fst d) (map snd d) = Inr w)"
  shows "h \<noteq> [] \<Longrightarrow> \<exists>h' ws. gen_loop choice lm i k (h, buf) = Inr (h', buf @ ws) \<and> length ws = k"
proof (induction k arbitrary: i h buf)
  case 0
  then show ?case by simp
next
  case (Suc k)
  have "\<exists>w. w \<noteq> [] \<and> generate_word (choice i) lm h = Inr w"
  proof (cases "map_of lm h")
    case None
    then show ?thesis by (simp add: generate_word_def)
  next
    case (Some d)
    then have "(h, d) \<in> set lm" by (rule map_of_SomeD)
    from draws[OF this, of i] Some show ?thesis by (auto simp: generate_word_def)
  qed
  then obtain w where w: "w \<noteq> []" "generate_word (choice i) lm h = Inr w" by blast
  from slide_history_nonempty[OF Suc.prems w(1)] obtain h2
    where h2: "slide_history h w = Inr h2" "h2 \<noteq> []" by auto
  from Suc.IH[OF h2(2), of "Suc i" "buf @ [w]"] obtain h' ws
    where "gen_loop choice lm (Suc i) k (h2, buf @ [w]) = Inr (h', (buf @ [w]) @ ws)" "length ws = k"
    by blast
  then have "gen_loop choice lm i (Suc k) (h, buf) = Inr (h', buf @ (w # ws)) \<and> length (w # ws) = Suc k"
    using w(2) h2(1) by simp
  then show ?case by blast
qed

lemma post_process_tildes:
  assumes "\<And>w. mark_word original ''~'' = Inr ''~''"
  shows "post_process original (replicate k ''~'') = Inr (replicate k ''~'')"
proof -
  have "strip_close_pass (strip_open_pass (replicate k ''~'')) = replicate k ''~''"
    by (simp add: strip_open_pass_map strip_close_pass_map strip_open_def strip_close_def)
  moreover have "linebreak_pass original (replicate k ''~'') = Inr (replicate k ''~'')"
    unfolding linebreak_pass_def using assms by (intro linebreak_loop_fixed) auto
  ultimately show ?thesis by (simp add: post_process_def)
qed

lemma gen_words_empty_model:
  assumes "2 \<le> n"
  shows "gen_words choice [] n k = Inr (replicate (nat k) ''~'')"
proof -
  from gen_loop_empty_model[OF init_history_nonempty[OF assms], of choice 0 "nat k" "[]"]
  obtain h' where "gen_loop choice [] 0 (nat k) (init_history n, []) = Inr (h', replicate (nat k) ''~'')"
    by auto
  then show ?thesis by (simp add: gen_words_def)
qed

subsection \<open>Claim C1: the training scenario\<close>

text \<open>
  Claim C1 describes the training loop as keeping one sliding history per document, and
  expects, for the single-string corpus \<open>"I love cats I love dogs"\<close> and \<open>n = 2\<close>, the
  keys \<open>"~"\<close>, \<open>"I"\<close>, \<open>"love"\<close> and \<open>"cats"\<close>. The code evaluates differently: for a single
  string every token is its own item of the outer loop, the history is reset to \<open>"~ "\<close>
  at the top of each iteration, and all six words are counted under the one key \<open>"~ "\<close>.
  The tuple branch (a list corpus) does keep the history across the words of a document;
  at order 2 its keys are \<open>"~ "\<close>, \<open>"I"\<close>, \<open>" love"\<close>, \<open>"love cats"\<close>, \<open>"cats I"\<close>, \<open>"I love"\<close>.
\<close>

theorem single_string_training_resets_history:
  "train_lm (Single ''I love cats I love dogs'') 2 =
     Inr [(''~ '', [(''I'', 1 / 3), (''love'', 1 / 3), (''cats'', 1 / 6), (''dogs'', 1 / 6)])]
   \<and> train_lm (Docs [''I love cats I love dogs'']) 2 =
     Inr [(''~ '', [(''I'', 1)]), (''I'', [(''love'', 1)]), ('' love'', [(''cats'', 1)]),
          (''love cats'', [(''I'', 1)]), (''cats I'', [(''love'', 1)]), (''I love'', [(''dogs'', 1)])]"
  by (simp add: run_defs)

subsection \<open>Claim C3: the value returned by generation\<close>

text \<open>
  Claim C3 says that \<open>generate\<close> returns the joined text as a string. The code evaluates
  \<open>return print(" ".join(text))\<close>: whenever it does not raise, the joined text is written
  to standard output and the value returned is \<open>None\<close>; for instance with the empty model,
  order 3 and two words.
\<close>

theorem generate_text_returns_None:
  "((\<exists>e. generate_text choice original lm n n_words = Inl e)
     \<or> (\<exists>r. generate_text choice original lm n n_words = Inr r \<and> returned r = None))
   \<and> generate_text choice (Single ''la'') [] 3 2 = Inr \<lparr>printed = ''~ ~\<newline>'', returned = None\<rparr>"
proof -
  have "(\<exists>e. generate_text choice original lm n n_words = Inl e)
     \<or> (\<exists>r. generate_text choice original lm n n_words = Inr r \<and> returned r = None)"
    by (auto simp: generate_text_def split: sum.splits)
  moreover have "generate_text choice (Single ''la'') [] 3 2 = Inr \<lparr>printed = ''~ ~\<newline>'', returned = None\<rparr>"
    by (simp add: generate_text_def gen_words_def generate_word_def post_process_def
        strip_open_pass_def strip_close_pass_def strip_open_def strip_close_def linebreak_pass_def
        mark_word_def run_defs)
  ultimately show ?thesis by blast
qed

subsection \<open>Claim C4: parenthesis stripping\<close>

text \<open>
  Claim C4 says that post-processing removes only a leading \<open>(\<close> and a trailing \<open>)\<close>.
  The three examples of the claim evaluate as it says, but the code tests whether the
  parenthesis occurs anywhere in the word and then drops the first (last) character
  whatever it is: \<open>"(yeah),"\<close> becomes \<open>"yeah)"\<close>, losing the comma and keeping the
  parenthesis, and \<open>"a(b"\<close> becomes \<open>"(b"\<close>.
\<close>

theorem paren_stripping_removes_other_characters:
  "strip_close (strip_open ''(shine)'') = ''shine''
   \<and> strip_close (strip_open ''(glow'') = ''glow''
   \<and> strip_close (strip_open ''gleam)'') = ''gleam''
   \<and> strip_close (strip_open ''(yeah),'') = ''yeah)''
   \<and> strip_close (strip_open ''a(b'') = ''(b''
   \<and> post_process (Single ''(yeah),'') [''(yeah),''] = Inr [''yeah)'']"
  by (simp add: strip_open_def strip_close_def post_process_def strip_open_pass_def
      strip_close_pass_def linebreak_pass_def)

subsection \<open>Claim C6: the fallback token\<close>

text \<open>
  Claim C6, as amended. If the history is not a key of the model, the sample step
  produces the token \<open>~\<close> and does not fail. Consequently, for every order \<open>n \<ge> 2\<close>:
  training on an empty corpus (the empty string, or the empty list) gives the empty
  model, generating \<open>k\<close> words from it gives \<open>k\<close> times the token \<open>~\<close>, and the text
  printed for that corpus is these \<open>k\<close> tokens joined by single spaces.
\<close>

theorem unknown_history_fallback:
  "(history \<notin> fst ` set lm \<longrightarrow> generate_word ch lm history = Inr ''~'')
   \<and> (2 \<le> n \<longrightarrow>
        train_lm (Single []) n = Inr [] \<and> train_lm (Docs []) n = Inr []
        \<and> gen_words choice [] n k = Inr (replicate (nat k) ''~'')
        \<and> generate_text choice (Single []) [] n k =
            Inr \<lparr>printed = join '' '' (replicate (nat k) ''~'') @ [CHR ''\<newline>''], returned = None\<rparr>
        \<and> generate_text choice (Docs []) [] n k =
            Inr \<lparr>printed = join '' '' (replicate (nat k) ''~'') @ [CHR ''\<newline>''], returned = None\<rparr>)"
proof -
  have a: "history \<notin> fst ` set lm \<longrightarrow> generate_word ch lm history = Inr ''~''"
  proof
    assume "history \<notin> fst ` set lm"
    then have "map_of lm history = None" by (simp add: map_of_eq_None_iff)
    then show "generate_word ch lm history = Inr ''~''" by (simp add: generate_word_def)
  qed
  have t: "train_lm (Single []) n = Inr [] \<and> train_lm (Docs []) n = Inr []"
    by (simp add: run_defs)
  have p1: "post_process (Single []) (replicate (nat k) ''~'') = Inr (replicate (nat k) ''~'')"
    by (rule post_process_tildes) (simp add: mark_word_def)
  have p2: "post_process (Docs []) (replicate (nat k) ''~'') = Inr (replicate (nat k) ''~'')"
    by (rule post_process_tildes) (simp add: mark_word_def)
  show ?thesis using a t p1 p2 gen_words_empty_model[of n choice k]
    by (simp add: generate_text_def)
qed

text \<open>The fallback for a history missing from a one-key model, and four words from the empty model at order 3.\<close>

theorem unknown_history_fallback_witness:
  "''a b'' \<notin> fst ` set [(''~ ~ '', [(''la'', 1::rat)])]
   \<and> generate_word (pick_first 0) [(''~ ~ '', [(''la'', 1)])] ''a b'' = Inr ''~''
   \<and> (2::int) \<le> 3
   \<and> gen_words pick_first [] 3 4 = Inr [''~'', ''~'', ''~'', ''~'']
   \<and> generate_text pick_first (Single []) [] 3 4 = Inr \<lparr>printed = ''~ ~ ~ ~\<newline>'', returned = None\<rparr>"
  using unknown_history_fallback[where history = "''a b''" and lm = "[(''~ ~ '', [(''la'', 1)])]"
      and ch = "pick_first 0" and choice = pick_first and n = 3 and k = 4]
  by (simp add: eval_nat_numeral)

text \<open>
  Claim C6 as stated, for any order, fails at order 1: training on the empty corpus still
  gives the empty model and the sample step still produces \<open>~\<close>, but the initial history
  is the empty string, and after the first word is appended the slide reads
  \<open>history[-1]\<close> and raises \<open>IndexError\<close>, so no word is returned at any position.
\<close>

theorem unknown_history_fallback_counterexample:
  "train_lm (Single []) 1 = Inr [] \<and> train_lm (Docs []) 1 = Inr []
   \<and> generate_word (pick_first 0) [] (init_history 1) = Inr ''~''
   \<and> gen_words pick_first [] 1 2 = Inl IndexError
   \<and> generate_text pick_first (Single []) [] 1 2 = Inl IndexError
   \<and> generate_text pick_first (Docs []) [] 1 2 = Inl IndexError"
  by (simp add: gen_words_def generate_word_def generate_text_def run_defs)

subsection \<open>Claim C7: the number of generated tokens\<close>

text \<open>
  Claim C7, as amended. For every order \<open>n \<ge> 2\<close>, every \<open>k\<close> and every model of which no
  value list is empty and every draw from a value list succeeds with a non-empty word:
  the generation loop returns a buffer of exactly \<open>k\<close> tokens. For every buffer, the two
  parenthesis passes return a buffer of the same length, and so does the line-break
  pass whenever it returns; hence whenever \<open>generate_text\<close> returns, the printed text is
  the space-join of exactly \<open>k\<close> tokens.
\<close>

theorem generation_length:
  assumes "2 \<le> n"
    and "\<And>h d i. (h, d) \<in> set lm \<Longrightarrow>
            d \<noteq> [] \<and> (\<exists>w. w \<noteq> [] \<and> choice i (map fst d) (map snd d) = Inr w)"
  shows "(\<exists>buf. gen_words choice lm n k = Inr buf \<and> length buf = nat k)
    \<and> length (strip_open_pass b) = length b
    \<and> length (strip_close_pass b) = length b
    \<and> (linebreak_pass original b = Inr b' \<longrightarrow> length b' = length b)
    \<and> (generate_text choice original lm n k = Inr r \<longrightarrow>
         (\<exists>buf'. length buf' = nat k \<and> printed r = join '' '' buf' @ [CHR ''\<newline>'']))"
proof -
  from gen_loop_total[of lm choice "init_history n" 0 "nat k" "[]"] assms(2)
    init_history_nonempty[OF assms(1)]
  obtain h' ws where g: "gen_loop choice lm 0 (nat k) (init_history n, []) = Inr (h', [] @ ws)"
    "length ws = nat k" by blast
  then have gw: "gen_words choice lm n k = Inr ws" by (simp add: gen_words_def)
  have passes: "length (strip_open_pass b) = length b" "length (strip_close_pass b) = length b"
    by (simp_all add: strip_open_pass_map strip_close_pass_map)
  have lb: "linebreak_pass original b = Inr b' \<longrightarrow> length b' = length b"
    using linebreak_pass_length by blast
  have "generate_text choice original lm n k = Inr r \<longrightarrow>
         (\<exists>buf'. length buf' = nat k \<and> printed r = join '' '' buf' @ [CHR ''\<newline>''])"
  proof
    assume "generate_text choice original lm n k = Inr r"
    then obtain buf' where pp: "post_process original ws = Inr buf'"
      and r: "r = \<lparr>printed = join '' '' buf' @ [CHR ''\<newline>''], returned = None\<rparr>"
      using gw by (auto simp: generate_text_def split: sum.splits)
    from pp have "length buf' = length ws"
      using linebreak_pass_length[of original "strip_close_pass (strip_open_pass ws)" buf']
      by (simp add: post_process_def strip_open_pass_map strip_close_pass_map)
    then show "\<exists>buf'. length buf' = nat k \<and> printed r = join '' '' buf' @ [CHR ''\<newline>'']"
      using r g(2) by auto
  qed
  then show ?thesis using gw g(2) passes lb by blast
qed

text \<open>A two-key model at order 2 with three words, through all three passes.\<close>

theorem generation_length_witness:
  "(\<exists>buf. gen_words pick_first [(''~ '', [(''(oh'', 1)]), (''(oh'', [(''la)'', 1)])] 2 3 = Inr buf
          \<and> length buf = 3)
   \<and> gen_words pick_first [(''~ '', [(''(oh'', 1)]), (''(oh'', [(''la)'', 1)])] 2 3 = Inr [''(oh'', ''la)'', ''~'']
   \<and> length (strip_open_pass [''(oh'', ''la)'', ''~'']) = 3
   \<and> length (strip_close_pass [''(oh'', ''la)'', ''~'']) = 3
   \<and> linebreak_pass (Docs [''(oh\<newline>la)'']) [''oh'', ''la'', ''~''] = Inr [''oh'', ''\<newline>la'', ''~'']
   \<and> generate_text pick_first (Docs [''(oh\<newline>la)'']) [(''~ '', [(''(oh'', 1)]), (''(oh'', [(''la)'', 1)])] 2 3
       = Inr \<lparr>printed = ''oh \<newline>la ~\<newline>'', returned = None\<rparr>"
proof -
  let ?lm = "[(''~ '', [(''(oh'', 1)]), (''(oh'', [(''la)'', 1::rat)])]"
  have order: "(2::int) \<le> 2" by simp
  have draws: "\<And>h d i. (h, d) \<in> set ?lm \<Longrightarrow>
      d \<noteq> [] \<and> (\<exists>w. w \<noteq> [] \<and> pick_first i (map fst d) (map snd d) = Inr w)"
    by (auto simp: pick_first_def)
  have run: "gen_words pick_first ?lm 2 3 = Inr [''(oh'', ''la)'', ''~'']"
    by (simp add: pick_first_def gen_words_def generate_word_def run_defs eval_nat_numeral)
  have lb: "linebreak_pass (Docs [''(oh\<newline>la)'']) [''oh'', ''la'', ''~''] = Inr [''oh'', ''\<newline>la'', ''~'']"
    by (simp add: linebreak_pass_def mark_word_def eval_nat_numeral)
  have gt: "generate_text pick_first (Docs [''(oh\<newline>la)'']) ?lm 2 3
       = Inr \<lparr>printed = ''oh \<newline>la ~\<newline>'', returned = None\<rparr>"
    using run lb
    by (simp add: generate_text_def post_process_def strip_open_pass_def strip_close_pass_def
        strip_open_def strip_close_def eval_nat_numeral)
  from generation_length[where n = 2 and lm = ?lm and choice = pick_first and k = 3
      and b = "[''(oh'', ''la)'', ''~'']"
      and original = "Docs [''(oh\<newline>la)'']" and b' = "[''oh'', ''\<newline>la'', ''~'']"
      and r = "\<lparr>printed = ''oh \<newline>la ~\<newline>'', returned = None\<rparr>", OF order draws]
  show ?thesis using run lb gt by simp
qed

text \<open>
  Claim C7 as stated, for every \<open>n\<close>, fails at order 1: the initial history is the empty
  string, the first iteration appends a word and then reads \<open>history[-1]\<close>, which raises
  \<open>IndexError\<close>, so no buffer is produced.
\<close>

theorem generation_length_counterexample:
  "gen_words pick_first [] 1 1 = Inl IndexError
   \<and> generate_text pick_first (Single ''la'') [] 1 1 = Inl IndexError"
  by (simp add: gen_words_def generate_word_def generate_text_def run_defs)

subsection \<open>Claim C9: training at order 1\<close>

text \<open>
  Claim C9, as amended. For \<open>n = 1\<close> the initial history is the empty string. On a corpus
  with at least one non-empty, non-bracketed token, training counts the first such token
  under the empty history, then reads \<open>history[-1]\<close> and raises \<open>IndexError\<close>: no model is
  returned. On a corpus without such a token it returns the empty model.
\<close>

theorem train_order_one:
  "train_lm lyrics 1 = (if has_token lyrics then Inl IndexError else Inr [])"
  by (cases lyrics)
     (simp_all add: train_lm_def train_counts_def tokenize_def has_token_def
        train_loop_strs_low train_loop_tuples_low)

text \<open>
  Claim C9 as stated (training at order 1 completes) fails on the one-word corpus, as a
  single string and as a one-document list.
\<close>

theorem train_order_one_counterexample:
  "has_token (Single ''la'') \<and> train_lm (Single ''la'') 1 = Inl IndexError
   \<and> has_token (Docs [''la'']) \<and> train_lm (Docs [''la'']) 1 = Inl IndexError"
  by (simp add: has_token_def run_defs)

subsection \<open>Claim C10: an empty word in line-break recovery\<close>

text \<open>
  Claim C10. Parenthesis stripping turns the one-character words \<open>(\<close> and \<open>)\<close> into the
  empty word, and line-break recovery on an empty word raises \<open>IndexError\<close> when the
  original corpus is a list with a document that contains a newline. This happens for
  the model trained at order 2 on the one-document corpus consisting of \<open>(\<close>, a newline
  and \<open>(\<close>: every draw is from the one-word list \<open>(\<close>, the buffer of two words is
  \<open>(\<close>, \<open>(\<close>, and \<open>generate_text\<close> raises \<open>IndexError\<close>.
\<close>

theorem empty_word_index_error:
  assumes "\<And>i. choice i [''(''] [1] = Inr ''(''"
  shows "strip_open ''('' = [] \<and> strip_close '')'' = []
    \<and> mark_word (Docs [''(\<newline>('']) [] = Inl IndexError
    \<and> train_lm (Docs [''(\<newline>('']) 2 = Inr [(''~ '', [(''('', 1)]), (''('', [(''('', 1)])]
    \<and> gen_words choice [(''~ '', [(''('', 1)]), (''('', [(''('', 1)])] 2 2 = Inr [''('', ''('']
    \<and> generate_text choice (Docs [''(\<newline>('']) [(''~ '', [(''('', 1)]), (''('', [(''('', 1)])] 2 2
        = Inl IndexError"
  using assms
  by (simp add: gen_words_def generate_word_def generate_text_def post_process_def
      strip_open_pass_def strip_close_pass_def strip_open_def strip_close_def linebreak_pass_def
      mark_word_def run_defs)

text \<open>The same run with the draw that returns the first candidate.\<close>

theorem empty_word_index_error_witness:
  "generate_text pick_first (Docs [''(\<newline>('']) [(''~ '', [(''('', 1)]), (''('', [(''('', 1)])] 2 2
        = Inl IndexError"
proof -
  have draw: "\<And>i. pick_first i [''(''] [1] = Inr ''(''" by (simp add: pick_first_def)
  from empty_word_index_error[of pick_first, OF draw] show ?thesis by simp
qed

subsection \<open>Training counts the observations\<close>

lemma train_words_seen:
  "h \<noteq> [] \<Longrightarrow> \<exists>h'. train_words (m, h) toks =
      Inr (fold (\<lambda>e m. bump m (fst e) (snd e)) (seen_words h toks) m, h') \<and> h' \<noteq> []"
proof (induction toks arbitrary: m h)
  case Nil
  then show ?case by simp
next
  case (Cons w toks)
  show ?case
  proof (cases "skipped w")
    case True
    then show ?thesis using Cons by simp
  next
    case False
    then have "w \<noteq> []" by (simp add: skipped_def)
    from slide_history_nonempty[OF Cons.prems this] obtain h2
      where h2: "slide_history h w = Inr h2" "h2 \<noteq> []" by blast
    from Cons.IH[OF h2(2), of "bump m h w"] show ?thesis using False h2(1) by simp
  qed
qed

lemma train_item_seen:
  assumes "2 \<le> n"
  shows "train_item m n it = Inr (fold (\<lambda>e m. bump m (fst e) (snd e)) (seen_item n it) m)"
proof (cases it)
  case (Tuple ws)
  from train_words_seen[OF init_history_nonempty[OF assms], of m ws]
  show ?thesis using Tuple by auto
next
  case (Str w)
  show ?thesis
  proof (cases "skipped w")
    case True
    then show ?thesis using Str by simp
  next
    case False
    then have "w \<noteq> []" by (simp add: skipped_def)
    from slide_history_nonempty[OF init_history_nonempty[OF assms] this]
    show ?thesis using Str False by auto
  qed
qed

lemma train_loop_seen:
  assumes "2 \<le> n"
  shows "train_loop m n items =
     Inr (fold (\<lambda>e m. bump m (fst e) (snd e)) (concat (map (seen_item n) items)) m)"
  by (induction items arbitrary: m) (simp_all add: train_item_seen[OF assms])

lemma train_counts_seen:
  "2 \<le> n \<Longrightarrow> train_counts lyrics n = Inr (fold (\<lambda>e m. bump m (fst e) (snd e)) (seen lyrics n) [])"
  by (simp add: train_counts_def seen_def train_loop_seen)

subsection \<open>First occurrences\<close>

lemma set_first_seen [simp]: "set (first_seen xs) = set xs"
  by (induction xs) auto

lemma distinct_first_seen [simp]: "distinct (first_seen xs)"
  by (induction xs) (auto simp: distinct_removeAll)

lemma first_seen_snoc:
  "first_seen (xs @ [x]) = (if x \<in> set xs then first_seen xs else first_seen xs @ [x])"
  by (induction xs) auto

lemma first_seen_eq_Nil [simp]: "first_seen xs = [] \<longleftrightarrow> xs = []"
  by (cases xs) auto

subsection \<open>Counters as tables\<close>

lemma incr_table:
  "distinct ws \<Longrightarrow> incr (map (\<lambda>v. (v, f v)) ws) w =
     (if w \<in> set ws then map (\<lambda>v. (v, if v = w then f v + 1 else f v)) ws
      else map (\<lambda>v. (v, f v)) ws @ [(w, 1)])"
  by (induction ws) auto

lemma bump_table:
  "distinct hs \<Longrightarrow> bump (map (\<lambda>k. (k, g k)) hs) h w =
     (if h \<in> set hs then map (\<lambda>k. (k, if k = h then incr (g k) w else g k)) hs
      else map (\<lambda>k. (k, g k)) hs @ [(h, incr [] w)])"
  by (induction hs) auto

lemma after_snoc:
  "after h (evs @ [(x, w)]) = (if h = x then after h evs @ [w] else after h evs)"
  by (simp add: after_def)

lemma after_Nil_iff: "after h evs = [] \<longleftrightarrow> h \<notin> fst ` set evs"
  by (induction evs) (auto simp: after_def)

lemma counter_snoc:
  "incr (map (\<lambda>v. (v, count_list ws v)) (first_seen ws)) w =
     map (\<lambda>v. (v, count_list (ws @ [w]) v)) (first_seen (ws @ [w]))"
  by (auto simp: incr_table first_seen_snoc count_list_0_iff)

lemma counts_of_seen:
  "fold (\<lambda>e m. bump m (fst e) (snd e)) evs [] =
     map (\<lambda>h. (h, map (\<lambda>w. (w, count_list (after h evs) w)) (first_seen (after h evs))))
         (first_seen (map fst evs))"
proof (induction evs rule: rev_induct)
  case Nil
  then show ?case by simp
next
  case (snoc e evs)
  obtain x w where e: "e = (x, w)" by (cases e)
  let ?ctr = "\<lambda>evs h. map (\<lambda>w. (w, count_list (after h evs) w)) (first_seen (after h evs))"
  have step: "?ctr (evs @ [(x, w)]) h = (if h = x then incr (?ctr evs h) w else ?ctr evs h)" for h
    by (simp add: after_snoc counter_snoc)
  show ?case
  proof (cases "x \<in> fst ` set evs")
    case True
    then show ?thesis using snoc e
      by (simp add: bump_table first_seen_snoc step)
  next
    case False
    then have "after x evs = []" by (simp add: after_Nil_iff)
    moreover have "\<forall>h\<in>set (first_seen (map fst evs)). h \<noteq> x" using False by auto
    ultimately show ?thesis using snoc e False
      by (simp add: bump_table first_seen_snoc step)
  qed
qed

subsection \<open>Normalisation\<close>

lemma total_count_table:
  "total_count (map (\<lambda>w. (w, count_list ws w)) (first_seen ws)) = length ws"
proof -
  have "sum_list (map (count_list ws) (first_seen ws)) = sum (count_list ws) (set (first_seen ws))"
    by (rule sum_list_distinct_conv_sum_set) simp
  also have "\<dots> = length ws" by (simp add: sum_count_set)
  finally show ?thesis by (simp add: total_count_def comp_def)
qed

lemma sum_list_most_common: "sum_list (map snd (most_common c)) = total_count c"
proof -
  have "mset (map snd (most_common c)) = mset (map snd c)"
    by (simp add: most_common_def)
  then have "sum_mset (mset (map snd (most_common c))) = sum_mset (mset (map snd c))"
    by (rule arg_cong)
  then show ?thesis unfolding sum_mset_sum_list total_count_def .
qed

lemma sum_list_divide:
  "sum_list (map (\<lambda>wc. (of_nat (snd wc) :: rat) / t) xs) = of_nat (sum_list (map snd xs)) / t"
  by (induction xs) (simp_all add: add_divide_distrib)

lemma normalize_sum:
  assumes "0 < total_count c"
  shows "sum_list (map snd (map (\<lambda>wc. (fst wc, (of_nat (snd wc) :: rat) / of_nat (total_count c)))
            (most_common c))) = 1"
proof -
  have "sum_list (map (\<lambda>wc. (of_nat (snd wc) :: rat) / of_nat (total_count c)) (most_common c))
        = of_nat (total_count c) / of_nat (total_count c)"
    by (simp add: sum_list_divide sum_list_most_common)
  then show ?thesis using assms by (simp add: comp_def)
qed

lemma most_common_descending:
  "sorted_wrt (\<lambda>a b. snd a \<ge> snd b) (most_common c)"
proof -
  have "sorted (map (\<lambda>wc. - int (snd wc)) (most_common c))"
    unfolding most_common_def by (rule sorted_sort_key)
  then have "sorted_wrt (\<lambda>a b. - int (snd a) \<le> - int (snd b)) (most_common c)"
    by (simp add: sorted_wrt_map)
  then show ?thesis by (rule sorted_wrt_mono_rel[rotated]) simp
qed

lemma normalize_descending:
  "sorted_wrt (\<ge>) (map snd (map (\<lambda>wc. (fst wc, (of_nat (snd wc) :: rat) / of_nat t)) (most_common c)))"
proof -
  have "sorted_wrt (\<lambda>a b. (of_nat (snd a) :: rat) / of_nat t \<ge> of_nat (snd b) / of_nat t) (most_common c)"
    by (rule sorted_wrt_mono_rel[OF _ most_common_descending]) (simp add: divide_right_mono)
  then show ?thesis by (simp add: sorted_wrt_map comp_def)
qed

lemma most_common_ties:
  assumes "0 < t"
  shows "filter (\<lambda>wc. (of_nat (snd wc) :: rat) / of_nat t = p) (most_common c)
       = filter (\<lambda>wc. (of_nat (snd wc) :: rat) / of_nat t = p) c"
proof (cases "\<exists>k. (of_nat k :: rat) / of_nat t = p")
  case True
  then obtain k where k: "(of_nat k :: rat) / of_nat t = p" by blast
  have eq: "((of_nat (snd wc) :: rat) / of_nat t = p) = (- int (snd wc) = - int k)" for wc :: "string \<times> nat"
    using assms k by (auto simp: divide_cancel_right)
  show ?thesis unfolding eq most_common_def by (rule sort_key_stable)
next
  case False
  then have "\<And>wc :: string \<times> nat. (of_nat (snd wc) :: rat) / of_nat t \<noteq> p" by blast
  then show ?thesis by simp
qed

lemma normalize_positive:
  "0 < total_count c \<Longrightarrow> normalize c =
     Inr (map (\<lambda>wc. (fst wc, of_nat (snd wc) / of_nat (total_count c))) (most_common c))"
  by (simp add: normalize_def)

lemma normalize_all_table:
  "\<forall>h\<in>set hs. 0 < total_count (g h) \<Longrightarrow>
     normalize_all (map (\<lambda>h. (h, g h)) hs) =
       Inr (map (\<lambda>h. (h, map (\<lambda>wc. (fst wc, of_nat (snd wc) / of_nat (total_count (g h))))
                            (most_common (g h)))) hs)"
  by (induction hs) (simp_all add: normalize_positive)

lemma train_lm_seen:
  assumes "2 \<le> n"
  shows "train_lm lyrics n =
     Inr (map (\<lambda>h. (h, map (\<lambda>wc. (fst wc, of_nat (snd wc) / of_nat (length (after h (seen lyrics n)))))
                        (most_common (map (\<lambda>w. (w, count_list (after h (seen lyrics n)) w))
                                          (first_seen (after h (seen lyrics n)))))))
              (first_seen (map fst (seen lyrics n))))"
proof -
  let ?evs = "seen lyrics n"
  let ?g = "\<lambda>h. map (\<lambda>w. (w, count_list (after h ?evs) w)) (first_seen (after h ?evs))"
  have pos: "\<forall>h\<in>set (first_seen (map fst ?evs)). 0 < total_count (?g h)"
    by (auto simp: total_count_table after_Nil_iff)
  have "train_lm lyrics n = normalize_all (map (\<lambda>h. (h, ?g h)) (first_seen (map fst ?evs)))"
    by (simp add: train_lm_def train_counts_seen[OF assms] counts_of_seen)
  also have "\<dots> = Inr (map (\<lambda>h. (h, map (\<lambda>wc. (fst wc, of_nat (snd wc) / of_nat (total_count (?g h))))
                            (most_common (?g h)))) (first_seen (map fst ?evs)))"
    using pos by (rule normalize_all_table)
  finally show ?thesis by (simp add: total_count_table)
qed

lemma distribution_properties:
  fixes ws :: "string list"
  assumes "ws \<noteq> []"
  defines "d \<equiv> map (\<lambda>wc. (fst wc, (of_nat (snd wc) :: rat) / of_nat (length ws)))
                   (most_common (map (\<lambda>w. (w, count_list ws w)) (first_seen ws)))"
  shows "d \<noteq> []" and "sum_list (map snd d) = 1" and "sorted_wrt (\<ge>) (map snd d)"
    and "distinct (map fst d)" and "fst ` set d = set ws"
    and "\<forall>(w, p) \<in> set d. p = of_nat (count_list ws w) / of_nat (length ws)"
    and "\<forall>p. map fst (filter (\<lambda>wp. snd wp = p) d)
           = filter (\<lambda>w. of_nat (count_list ws w) / of_nat (length ws) = p) (first_seen ws)"
proof -
  let ?c = "map (\<lambda>w. (w, count_list ws w)) (first_seen ws)"
  have tot: "total_count ?c = length ws" by (rule total_count_table)
  have len: "0 < length ws" using assms(1) by simp
  have "length (most_common ?c) = length ?c" by (simp add: most_common_def)
  then show "d \<noteq> []" using assms(1) by (auto simp: d_def)
  have "0 < total_count ?c" using tot len by simp
  from normalize_sum[OF this] show "sum_list (map snd d) = 1" by (simp add: d_def tot)
  show "sorted_wrt (\<ge>) (map snd d)" unfolding d_def by (rule normalize_descending)
  have fst_d: "map fst d = map fst (most_common ?c)" by (simp add: d_def comp_def)
  have "mset (most_common ?c) = mset ?c" by (simp add: most_common_def)
  then have "mset (map fst (most_common ?c)) = mset (map fst ?c)" by (metis mset_map)
  then have "distinct (map fst (most_common ?c)) = distinct (map fst ?c)"
    and "set (map fst (most_common ?c)) = set (map fst ?c)"
    by (metis mset_eq_imp_distinct_iff, metis mset_eq_setD)
  then show "distinct (map fst d)" and "fst ` set d = set ws"
    using fst_d by (simp_all add: comp_def del: set_map) (metis list.set_map)
  have "set (most_common ?c) = set ?c" by (simp add: most_common_def)
  then show "\<forall>(w, p) \<in> set d. p = of_nat (count_list ws w) / of_nat (length ws)"
    by (auto simp: d_def)
  show "\<forall>p. map fst (filter (\<lambda>wp. snd wp = p) d)
           = filter (\<lambda>w. of_nat (count_list ws w) / of_nat (length ws) = p) (first_seen ws)"
  proof
    fix p
    have "map fst (filter (\<lambda>wp. snd wp = p) d)
        = map fst (filter (\<lambda>wc. (of_nat (snd wc) :: rat) / of_nat (length ws) = p) (most_common ?c))"
      by (simp add: d_def filter_map comp_def)
    also have "\<dots> = map fst (filter (\<lambda>wc. (of_nat (snd wc) :: rat) / of_nat (length ws) = p) ?c)"
      by (simp add: most_common_ties[OF len])
    also have "\<dots> = filter (\<lambda>w. of_nat (count_list ws w) / of_nat (length ws) = p) (first_seen ws)"
      by (simp add: filter_map comp_def)
    finally show "map fst (filter (\<lambda>wp. snd wp = p) d)
           = filter (\<lambda>w. of_nat (count_list ws w) / of_nat (length ws) = p) (first_seen ws)" .
  qed
qed

subsection \<open>Claim C5: the trained distributions\<close>

text \<open>
  Claim C5. For every corpus and every order \<open>n \<ge> 2\<close>, training returns a model. Its
  keys are the histories under which a word was counted, in the order of their first
  observation. Every key \<open>h\<close> maps to a non-empty list \<open>d\<close> of (word, probability) pairs
  whose probabilities sum to exactly 1 and are in descending order; the words of \<open>d\<close> are
  the distinct words observed after \<open>h\<close>; each probability is the number of times the
  word was observed after \<open>h\<close> divided by the number of all observations after \<open>h\<close>; and
  the words that share a probability appear in the order in which they were first
  encountered after \<open>h\<close>.
\<close>

theorem trained_model_distributions:
  assumes "2 \<le> n"
  shows "\<exists>lm. train_lm lyrics n = Inr lm
    \<and> map fst lm = first_seen (map fst (seen lyrics n))
    \<and> (\<forall>(h, d) \<in> set lm.
          d \<noteq> [] \<and> sum_list (map snd d) = 1 \<and> sorted_wrt (\<ge>) (map snd d)
          \<and> distinct (map fst d) \<and> fst ` set d = set (after h (seen lyrics n))
          \<and> (\<forall>(w, p) \<in> set d.
                p = of_nat (count_list (after h (seen lyrics n)) w)
                    / of_nat (length (after h (seen lyrics n))))
          \<and> (\<forall>p. map fst (filter (\<lambda>wp. snd wp = p) d)
                   = filter (\<lambda>w. of_nat (count_list (after h (seen lyrics n)) w)
                                    / of_nat (length (after h (seen lyrics n))) = p)
                            (first_seen (after h (seen lyrics n)))))"
proof -
  let ?evs = "seen lyrics n"
  let ?dist = "\<lambda>h. map (\<lambda>wc. (fst wc, (of_nat (snd wc) :: rat) / of_nat (length (after h ?evs))))
                        (most_common (map (\<lambda>w. (w, count_list (after h ?evs) w))
                                          (first_seen (after h ?evs))))"
  let ?lm = "map (\<lambda>h. (h, ?dist h)) (first_seen (map fst ?evs))"
  have run: "train_lm lyrics n = Inr ?lm" using assms by (rule train_lm_seen)
  have keys: "map fst ?lm = first_seen (map fst ?evs)" by (simp add: comp_def)
  have each: "d \<noteq> [] \<and> sum_list (map snd d) = 1 \<and> sorted_wrt (\<ge>) (map snd d)
          \<and> distinct (map fst d) \<and> fst ` set d = set (after h ?evs)
          \<and> (\<forall>(w, p) \<in> set d.
                p = of_nat (count_list (after h ?evs) w) / of_nat (length (after h ?evs)))
          \<and> (\<forall>p. map fst (filter (\<lambda>wp. snd wp = p) d)
                   = filter (\<lambda>w. of_nat (count_list (after h ?evs) w)
                                    / of_nat (length (after h ?evs)) = p)
                            (first_seen (after h ?evs)))"
    if "(h, d) \<in> set ?lm" for h d
  proof -
    from that have h: "h \<in> fst ` set ?evs" and d: "d = ?dist h" by auto
    from h have ne: "after h ?evs \<noteq> []" by (simp add: after_Nil_iff)
    show ?thesis unfolding d using distribution_properties[OF ne] by blast
  qed
  have "\<forall>(h, d) \<in> set ?lm.
          d \<noteq> [] \<and> sum_list (map snd d) = 1 \<and> sorted_wrt (\<ge>) (map snd d)
          \<and> distinct (map fst d) \<and> fst ` set d = set (after h ?evs)
          \<and> (\<forall>(w, p) \<in> set d.
                p = of_nat (count_list (after h ?evs) w) / of_nat (length (after h ?evs)))
          \<and> (\<forall>p. map fst (filter (\<lambda>wp. snd wp = p) d)
                   = filter (\<lambda>w. of_nat (count_list (after h ?evs) w)
                                    / of_nat (length (after h ?evs)) = p)
                            (first_seen (after h ?evs)))"
    using each by blast
  with run keys show ?thesis by blast
qed


text \<open>The model of a one-document corpus at order 3, with a tie after the history \<open>I love\<close>.\<close>

theorem trained_model_distributions_witness:
  "(2::int) \<le> 3
   \<and> train_lm (Docs [''I love cats I love dogs'']) 3 =
       Inr [(''~ ~ '', [(''I'', 1)]), (''~ I'', [(''love'', 1)]),
            (''I love'', [(''cats'', 1 / 2), (''dogs'', 1 / 2)]),
            (''love cats'', [(''I'', 1)]), (''cats I'', [(''love'', 1)])]
   \<and> [(''cats'', 1 / 2), (''dogs'', 1 / 2 :: rat)] \<noteq> []
   \<and> sum_list (map snd [(''cats'', 1 / 2), (''dogs'', 1 / 2 :: rat)]) = 1
   \<and> sorted_wrt (\<ge>) (map snd [(''cats'', 1 / 2), (''dogs'', 1 / 2 :: rat)])
   \<and> distinct (map fst [(''cats'', 1 / 2), (''dogs'', 1 / 2 :: rat)])"
proof -
  let ?c = "Docs [''I love cats I love dogs'']"
  let ?d = "[(''cats'', 1 / 2), (''dogs'', 1 / 2 :: rat)]"
  let ?L = "[(''~ ~ '', [(''I'', 1::rat)]), (''~ I'', [(''love'', 1)]),
            (''I love'', ?d),
            (''love cats'', [(''I'', 1)]), (''cats I'', [(''love'', 1)])]"
  have order: "(2::int) \<le> 3" by simp
  have run: "train_lm ?c 3 = Inr ?L" by (simp add: run_defs)
  from trained_model_distributions[OF order, of ?c] obtain lm where
    lm: "train_lm ?c 3 = Inr lm" and
    props: "\<forall>(h, d) \<in> set lm.
          d \<noteq> [] \<and> sum_list (map snd d) = 1 \<and> sorted_wrt (\<ge>) (map snd d)
          \<and> distinct (map fst d) \<and> fst ` set d = set (after h (seen ?c 3))
          \<and> (\<forall>(w, p) \<in> set d.
                p = of_nat (count_list (after h (seen ?c 3)) w)
                    / of_nat (length (after h (seen ?c 3))))
          \<and> (\<forall>p. map fst (filter (\<lambda>wp. snd wp = p) d)
                   = filter (\<lambda>w. of_nat (count_list (after h (seen ?c 3)) w)
                                    / of_nat (length (after h (seen ?c 3))) = p)
                            (first_seen (after h (seen ?c 3))))"
    by blast
  from lm run have "lm = ?L" by simp
  then have "(''I love'', ?d) \<in> set lm" by simp
  with props have "?d \<noteq> [] \<and> sum_list (map snd ?d) = 1 \<and> sorted_wrt (\<ge>) (map snd ?d)
          \<and> distinct (map fst ?d)"
    by blast
  with order run show ?thesis by blast
qed

subsection \<open>Skipped tokens\<close>

lemma set_slide_history:
  assumes "slide_history h w = Inr h2"
  shows "set h2 \<subseteq> set h \<union> {CHR '' ''} \<union> set w"
proof -
  let ?fs = "drop 1 (split_on is_space h)"
  have "set (join '' '' ?fs) \<subseteq> set '' '' \<union> \<Union> (set ` set ?fs)" by (rule set_join)
  moreover have "\<Union> (set ` set ?fs) \<subseteq> \<Union> (set ` set (split_on is_space h))"
    using set_drop_subset[of 1 "split_on is_space h"] by blast
  moreover have "\<Union> (set ` set (split_on is_space h)) \<subseteq> set h" by (rule set_split_on)
  ultimately have "set (join '' '' ?fs) \<subseteq> set h \<union> {CHR '' ''}" by auto
  then show ?thesis using assms by (auto simp: slide_history_def split: if_splits)
qed

lemma slide_history_unskipped:
  assumes "\<not> skipped h" "\<not> skipped w"
  shows "\<exists>h2. slide_history h w = Inr h2 \<and> \<not> skipped h2"
proof -
  from assms have "h \<noteq> []" "w \<noteq> []" by (auto simp: skipped_def)
  from slide_history_nonempty[OF this] obtain h2
    where h2: "slide_history h w = Inr h2" "h2 \<noteq> []" by blast
  from set_slide_history[OF h2(1)] assms h2(2) have "\<not> skipped h2"
    by (auto simp: skipped_def)
  with h2(1) show ?thesis by blast
qed

lemma init_history_unskipped: "2 \<le> n \<Longrightarrow> \<not> skipped (init_history n)"
  using init_history_nonempty[of n] by (auto simp: skipped_def init_history_def)

lemma seen_words_unskipped:
  "\<not> skipped h \<Longrightarrow> \<forall>(x, w) \<in> set (seen_words h toks). \<not> skipped x \<and> \<not> skipped w"
proof (induction toks arbitrary: h)
  case Nil
  then show ?case by simp
next
  case (Cons t toks)
  show ?case
  proof (cases "skipped t")
    case True
    then show ?thesis using Cons by simp
  next
    case False
    from slide_history_unskipped[OF Cons.prems False] obtain h2
      where h2: "slide_history h t = Inr h2" "\<not> skipped h2" by blast
    from Cons.IH[OF h2(2)] show ?thesis using False h2(1) Cons.prems by simp
  qed
qed

lemma seen_item_unskipped:
  "2 \<le> n \<Longrightarrow> \<forall>(x, w) \<in> set (seen_item n it). \<not> skipped x \<and> \<not> skipped w"
  using seen_words_unskipped[OF init_history_unskipped] init_history_unskipped
  by (cases it) auto

lemma seen_unskipped:
  "2 \<le> n \<Longrightarrow> \<forall>(x, w) \<in> set (seen lyrics n). \<not> skipped x \<and> \<not> skipped w"
  using seen_item_unskipped[of n] by (fastforce simp: seen_def)

lemma train_words_unskipped:
  "train_words (m, h) toks = train_words (m, h) (unskipped toks)"
  by (induction toks arbitrary: m h) (auto split: sum.splits)

lemma train_loop_strs_unskipped:
  "train_loop m n (map Str toks) = train_loop m n (map Str (unskipped toks))"
  by (induction toks arbitrary: m) (auto split: sum.splits)

lemma trained_model_unskipped:
  assumes "2 \<le> n"
  shows "\<exists>lm. train_lm lyrics n = Inr lm
     \<and> (\<forall>(k, d) \<in> set lm. \<not> skipped k \<and> (\<forall>(v, p) \<in> set d. \<not> skipped v))"
proof -
  let ?evs = "seen lyrics n"
  let ?dist = "\<lambda>h. map (\<lambda>wc. (fst wc, (of_nat (snd wc) :: rat) / of_nat (length (after h ?evs))))
                        (most_common (map (\<lambda>w. (w, count_list (after h ?evs) w))
                                          (first_seen (after h ?evs))))"
  let ?lm = "map (\<lambda>h. (h, ?dist h)) (first_seen (map fst ?evs))"
  have run: "train_lm lyrics n = Inr ?lm" using assms by (rule train_lm_seen)
  have ev: "\<forall>(x, w) \<in> set ?evs. \<not> skipped x \<and> \<not> skipped w" using assms by (rule seen_unskipped)
  have "\<not> skipped k \<and> (\<forall>(v, p) \<in> set d. \<not> skipped v)" if "(k, d) \<in> set ?lm" for k d
  proof -
    from that have k: "k \<in> fst ` set ?evs" and d: "d = ?dist k" by auto
    from k ev have "\<not> skipped k" by auto
    moreover have "\<not> skipped v" if "(v, p) \<in> set d" for v p
    proof -
      from k have ne: "after k ?evs \<noteq> []" by (simp add: after_Nil_iff)
      from distribution_properties(5)[OF ne] d have "fst ` set d = set (after k ?evs)" by simp
      with that have "v \<in> set (after k ?evs)" by force
      then have "(k, v) \<in> set ?evs" by (auto simp: after_def)
      with ev show ?thesis by auto
    qed
    ultimately show ?thesis by blast
  qed
  then have "\<forall>(k, d) \<in> set ?lm. \<not> skipped k \<and> (\<forall>(v, p) \<in> set d. \<not> skipped v)" by blast
  with run show ?thesis by blast
qed

subsection \<open>Claim C8: skipped tokens\<close>

text \<open>
  Claim C8. A token that is empty or contains a bracket is skipped: the step of the
  training loop on such a token leaves the model and the history as they are, so a
  document trains exactly as the document without these tokens does, for a list corpus
  and for a single string. For every corpus and every order \<open>n \<ge> 2\<close> training returns a
  model, and no key of it and no word of its value lists is empty or contains a bracket.
\<close>

theorem skipped_tokens_leave_no_trace:
  "(skipped w \<longrightarrow> train_words (m, h) (w # rest) = train_words (m, h) rest
                  \<and> train_item m n (Str w) = Inr m)
   \<and> train_words (m, h) toks = train_words (m, h) (unskipped toks)
   \<and> train_loop m n (map Str toks) = train_loop m n (map Str (unskipped toks))
   \<and> (2 \<le> n \<longrightarrow>
        (\<exists>lm. train_lm lyrics n = Inr lm
           \<and> (\<forall>(k, d) \<in> set lm. \<not> skipped k \<and> (\<forall>(v, p) \<in> set d. \<not> skipped v))))"
  using train_words_unskipped[of m h toks] train_loop_strs_unskipped[of m n toks]
    trained_model_unskipped[of n lyrics]
  by simp

text \<open>
  A section mark and an empty token (from a double space) in a document at order 3: the
  model has the two keys of the two counted words only.
\<close>

theorem skipped_tokens_leave_no_trace_witness:
  "skipped ''[Chorus]'' \<and> (2::int) \<le> 3
   \<and> train_words ([], ''~ la'') [''[Chorus]'', ''di''] = train_words ([], ''~ la'') [''di'']
   \<and> train_words ([], ''~ la'') [''di''] = Inr ([(''~ la'', [(''di'', 1)])], ''la di'')
   \<and> train_item [] 3 (Str ''[Chorus]'') = Inr []
   \<and> train_lm (Docs [''la [Verse 1]  di'']) 3 = Inr [(''~ ~ '', [(''la'', 1)]), (''~ la'', [(''di'', 1)])]
   \<and> \<not> skipped ''~ la'' \<and> \<not> skipped ''di''"
proof -
  let ?c = "Docs [''la [Verse 1]  di'']"
  let ?L = "[(''~ ~ '', [(''la'', 1::rat)]), (''~ la'', [(''di'', 1)])]"
  have sk: "skipped ''[Chorus]''" by (simp add: skipped_def)
  have order: "(2::int) \<le> 3" by simp
  have run: "train_lm ?c 3 = Inr ?L" by (simp add: run_defs)
  have step: "train_words ([], ''~ la'') [''di''] = Inr ([(''~ la'', [(''di'', 1)])], ''la di'')"
    by (simp add: run_defs)
  note inst = skipped_tokens_leave_no_trace[where w = "''[Chorus]''" and m = "[]" and h = "''~ la''"
      and rest = "[''di'']" and n = 3 and toks = "[]" and lyrics = ?c]
  from inst sk have a: "train_words ([], ''~ la'') [''[Chorus]'', ''di''] = train_words ([], ''~ la'') [''di'']"
    and b: "train_item [] 3 (Str ''[Chorus]'') = Inr []" by blast+
  from inst order obtain lm where lm: "train_lm ?c 3 = Inr lm"
    and props: "\<forall>(k, d) \<in> set lm. \<not> skipped k \<and> (\<forall>(v, p) \<in> set d. \<not> skipped v)" by blast
  from lm run have "lm = ?L" by simp
  then have "(''~ la'', [(''di'', 1)]) \<in> set lm" by simp
  with props have "\<not> skipped ''~ la'' \<and> (\<forall>(v, p) \<in> set [(''di'', 1::rat)]. \<not> skipped v)"
    by blast
  then have "\<not> skipped ''~ la'' \<and> \<not> skipped ''di''" by simp
  with sk order a b step run show ?thesis by blast
qed

end
